theory Spec2Isabelle
  imports Main
begin

section \<open>The external collaborators: connection and write batches\<close>

text \<open>
  \<^verbatim>\<open>src/multiBatch.ts\<close> imports the Firestore driver and uses two of its classes:
  the connection, of which only \<^verbatim>\<open>db.batch()\<close> is called, and the write batch, on which
  \<^verbatim>\<open>delete\<close>, \<^verbatim>\<open>set\<close> (with two or three arguments), \<^verbatim>\<open>update\<close> and \<^verbatim>\<open>commit\<close> are called.
  The driver is not part of the repository. A write batch is modelled by what the
  aggregator can make it record: the calls staged on it, in order. Each batch carries
  the serial number under which the connection issued it, so that two handles can be
  told apart. What a batch's \<^verbatim>\<open>commit\<close> does on the server is a parameter of the model.
\<close>

type_synonym document_reference = string
type_synonym document_data = "(string \<times> string) list"
type_synonym update_data = "(string \<times> string) list"

record set_options =
  merge :: "bool option"
  mergeFields :: "string list option"

text \<open>The calls a write batch can receive; the two forms of \<^verbatim>\<open>set\<close> are distinct calls.\<close>

datatype staged_write =
    DeleteCall document_reference
  | SetCall2 document_reference document_data
  | SetCall3 document_reference document_data set_options
  | UpdateCall document_reference update_data

record write_batch =
  batch_id :: nat
  staged :: "staged_write list"

record firestore =
  issued :: nat

text \<open>\<^verbatim>\<open>db.batch()\<close>: a new, empty write batch; the connection counts the batches it issued.\<close>

definition firestore_batch :: "firestore \<Rightarrow> write_batch \<times> firestore" where
  "firestore_batch fs =
     (\<lparr>batch_id = issued fs, staged = []\<rparr>, fs\<lparr>issued := Suc (issued fs)\<rparr>)"

definition wb_delete :: "write_batch \<Rightarrow> document_reference \<Rightarrow> write_batch" where
  "wb_delete b ref = b\<lparr>staged := staged b @ [DeleteCall ref]\<rparr>"

definition wb_set2 :: "write_batch \<Rightarrow> document_reference \<Rightarrow> document_data \<Rightarrow> write_batch" where
  "wb_set2 b ref data = b\<lparr>staged := staged b @ [SetCall2 ref data]\<rparr>"

definition wb_set3 ::
  "write_batch \<Rightarrow> document_reference \<Rightarrow> document_data \<Rightarrow> set_options \<Rightarrow> write_batch" where
  "wb_set3 b ref data opts = b\<lparr>staged := staged b @ [SetCall3 ref data opts]\<rparr>"

definition wb_update :: "write_batch \<Rightarrow> document_reference \<Rightarrow> update_data \<Rightarrow> write_batch" where
  "wb_update b ref data = b\<lparr>staged := staged b @ [UpdateCall ref data]\<rparr>"

subsection \<open>Promises\<close>

text \<open>
  \<^verbatim>\<open>batch.commit()\<close> returns a promise. The model records how the promise settles: with a
  rejection reason or with the list of write results (a write result is its write time),
  and when. \<^verbatim>\<open>Promise.all\<close> is fulfilled with all values, in the order of the array, when
  every promise is fulfilled; otherwise it is rejected with the reason of the promise
  that rejects first in time (the earlier array position for equal times).
\<close>

type_synonym reason = string
type_synonym write_result = nat

record settlement =
  settled_at :: nat
  outcome :: "reason + write_result list"

fun fulfilled_values :: "settlement list \<Rightarrow> write_result list list" where
  "fulfilled_values [] = []"
| "fulfilled_values (p # ps) =
     (case outcome p of
        Inl r \<Rightarrow> fulfilled_values ps
      | Inr v \<Rightarrow> v # fulfilled_values ps)"

fun earliest_rejection :: "settlement list \<Rightarrow> (nat \<times> reason) option" where
  "earliest_rejection [] = None"
| "earliest_rejection (p # ps) =
     (case outcome p of
        Inr v \<Rightarrow> earliest_rejection ps
      | Inl r \<Rightarrow>
          (case earliest_rejection ps of
             None \<Rightarrow> Some (settled_at p, r)
           | Some (t, r') \<Rightarrow>
               if settled_at p \<le> t then Some (settled_at p, r) else Some (t, r')))"

definition promise_all :: "settlement list \<Rightarrow> reason + write_result list list" where
  "promise_all ps =
     (case earliest_rejection ps of
        Some (t, r) \<Rightarrow> Inl r
      | None \<Rightarrow> Inr (fulfilled_values ps))"

section \<open>The class MultiBatch\<close>

text \<open>
  The fields of the class. \<^verbatim>\<open>limit\<close> and \<^verbatim>\<open>operations\<close> are JavaScript numbers; the model
  takes them as integers, which covers every whole-number limit, the negative ones
  included. The connection is held by reference in the source; here its state travels
  inside the aggregator's state.
\<close>

definition BATCH_LIMIT :: int where
  "BATCH_LIMIT = 500"

record multi_batch =
  db :: firestore
  limit :: int
  batches :: "write_batch list"
  operations :: int

text \<open>
  The constructor. Its second parameter has a default value: \<open>None\<close> is the omitted
  argument. The body has no \<^verbatim>\<open>throw\<close>.
\<close>

definition constructor :: "firestore \<Rightarrow> int option \<Rightarrow> multi_batch" where
  "constructor fs limit_arg =
     (let lim = (case limit_arg of None \<Rightarrow> BATCH_LIMIT | Some l \<Rightarrow> l);
          (b, fs') = firestore_batch fs
      in \<lparr>db = fs',
          limit = (if lim < BATCH_LIMIT then lim else BATCH_LIMIT),
          batches = [b],
          operations = 0\<rparr>)"

text \<open>
  How a call of the class completes: with a value or with a thrown error. The only
  error the methods themselves can raise is the \<^verbatim>\<open>TypeError\<close> of calling a method on
  \<^verbatim>\<open>undefined\<close>, which is what \<^verbatim>\<open>this.batches[this.batches.length - 1]\<close> is when the
  array is empty.
\<close>

datatype error = TypeError

text \<open>The expression \<^verbatim>\<open>new MultiBatch(db, limit)\<close>: the constructor never throws.\<close>

definition new_MultiBatch :: "firestore \<Rightarrow> int option \<Rightarrow> error + multi_batch" where
  "new_MultiBatch fs limit_arg = Inr (constructor fs limit_arg)"

text \<open>
  \<^verbatim>\<open>getBatch\<close> returns a reference to a write batch that is an element of \<^verbatim>\<open>batches\<close>;
  the model returns its position in the array, and \<open>None\<close> for \<^verbatim>\<open>undefined\<close>.
\<close>

definition getBatch :: "multi_batch \<Rightarrow> nat option \<times> multi_batch" where
  "getBatch s =
     (if operations s < limit s
      then ((if batches s = [] then None else Some (length (batches s) - 1)), s)
      else
        (let (b, fs') = firestore_batch (db s);
             s1 = s\<lparr>db := fs', batches := batches s @ [b]\<rparr>;
             s2 = s1\<lparr>operations := 0\<rparr>
         in (Some (length (batches s)), s2)))"

text \<open>
  The three mutators share their shape: call a method on the batch that \<^verbatim>\<open>getBatch\<close>
  returns, then increment \<^verbatim>\<open>operations\<close>, then return \<^verbatim>\<open>this\<close> (here: the new state).
\<close>

definition on_target ::
  "(write_batch \<Rightarrow> write_batch) \<Rightarrow> nat option \<times> multi_batch \<Rightarrow> error + multi_batch" where
  "on_target call tgt =
     (case tgt of
        (None, s) \<Rightarrow> Inl TypeError
      | (Some i, s) \<Rightarrow>
          Inr ((s\<lparr>batches := (batches s)[i := call (batches s ! i)]\<rparr>)
                \<lparr>operations := operations s + 1\<rparr>))"

definition delete :: "multi_batch \<Rightarrow> document_reference \<Rightarrow> error + multi_batch" where
  "delete s ref = on_target (\<lambda>b. wb_delete b ref) (getBatch s)"

text \<open>
  The optional parameter of \<^verbatim>\<open>set\<close> is tested with \<^verbatim>\<open>options == undefined\<close>, the loose
  equality, which holds of \<^verbatim>\<open>undefined\<close> (the omitted argument) and of \<^verbatim>\<open>null\<close>.
\<close>

datatype 'a js_optional = Undefined | Null | Value 'a

definition set_mb ::
  "multi_batch \<Rightarrow> document_reference \<Rightarrow> document_data \<Rightarrow> set_options js_optional
     \<Rightarrow> error + multi_batch" where
  "set_mb s ref data options =
     (case options of
        Value opts \<Rightarrow> on_target (\<lambda>b. wb_set3 b ref data opts) (getBatch s)
      | _ \<Rightarrow> on_target (\<lambda>b. wb_set2 b ref data) (getBatch s))"

definition update :: "multi_batch \<Rightarrow> document_reference \<Rightarrow> update_data \<Rightarrow> error + multi_batch" where
  "update s ref data = on_target (\<lambda>b. wb_update b ref data) (getBatch s)"

text \<open>
  \<^verbatim>\<open>commit\<close> is declared to return \<^verbatim>\<open>Promise<void | WriteResult[][]>\<close>. The model gives
  how that promise settles, and the state then. When \<^verbatim>\<open>Promise.all\<close> rejects, the
  \<^verbatim>\<open>await\<close> throws and the two assignments after it do not run. No other call on the
  aggregator runs while the commit is awaited.
\<close>

datatype commit_value = Void | Results "write_result list list"

definition commit ::
  "(write_batch \<Rightarrow> settlement) \<Rightarrow> multi_batch \<Rightarrow> (reason + commit_value) \<times> multi_batch" where
  "commit backend s =
     (case promise_all (map backend (batches s)) of
        Inl r \<Rightarrow> (Inl r, s)
      | Inr results \<Rightarrow>
          (let (b, fs') = firestore_batch (db s);
               s1 = s\<lparr>db := fs', batches := [b]\<rparr>;
               s2 = s1\<lparr>operations := 0\<rparr>
           in (Inr Void, s2)))"

section \<open>Sequences of enqueue operations\<close>

text \<open>A call of one of the three mutators, and what it stages on the batch.\<close>

datatype enqueue_op =
    Delete document_reference
  | Set document_reference document_data "set_options js_optional"
  | Update document_reference update_data

fun enqueue :: "multi_batch \<Rightarrow> enqueue_op \<Rightarrow> error + multi_batch" where
  "enqueue s (Delete ref) = delete s ref"
| "enqueue s (Set ref data options) = set_mb s ref data options"
| "enqueue s (Update ref data) = update s ref data"

fun enqueue_all :: "multi_batch \<Rightarrow> enqueue_op list \<Rightarrow> error + multi_batch" where
  "enqueue_all s [] = Inr s"
| "enqueue_all s (c # cs) =
     (case enqueue s c of
        Inl e \<Rightarrow> Inl e
      | Inr s' \<Rightarrow> enqueue_all s' cs)"

fun write_of :: "enqueue_op \<Rightarrow> staged_write" where
  "write_of (Delete ref) = DeleteCall ref"
| "write_of (Set ref data (Value opts)) = SetCall3 ref data opts"
| "write_of (Set ref data Undefined) = SetCall2 ref data"
| "write_of (Set ref data Null) = SetCall2 ref data"
| "write_of (Update ref data) = UpdateCall ref data"

text \<open>Each of the four batch methods appends one call to the calls staged so far.\<close>

definition add_write :: "staged_write \<Rightarrow> write_batch \<Rightarrow> write_batch" where
  "add_write w b = b\<lparr>staged := staged b @ [w]\<rparr>"

section \<open>Invariants\<close>

text \<open>
  A list of lists \<open>xss\<close> cuts the list \<open>ws\<close> into pieces of \<open>L\<close> elements: \<open>xss\<close> is not
  empty, its concatenation is \<open>ws\<close>, every piece but the last has exactly \<open>L\<close> elements,
  the last one has at most \<open>L\<close>, and it is empty only when \<open>ws\<close> is.
\<close>

definition chunked :: "nat \<Rightarrow> 'a list list \<Rightarrow> 'a list \<Rightarrow> bool" where
  "chunked L xss ws \<longleftrightarrow>
     xss \<noteq> [] \<and> length (last xss) \<le> L \<and> concat xss = ws \<and>
     (\<forall>j. Suc j < length xss \<longrightarrow> length (xss ! j) = L) \<and>
     (ws \<noteq> [] \<longrightarrow> last xss \<noteq> [])"

text \<open>
  The state of an aggregator of limit \<open>L\<close> on which the calls \<open>ws\<close> were staged since
  its batches were last reset.
\<close>

definition layout :: "nat \<Rightarrow> multi_batch \<Rightarrow> staged_write list \<Rightarrow> bool" where
  "layout L s ws \<longleftrightarrow>
     limit s = int L \<and>
     operations s = int (length (staged (last (batches s)))) \<and>
     chunked L (map staged (batches s)) ws"

text \<open>The state right after construction, and right after a successful commit.\<close>

definition fresh :: "multi_batch \<Rightarrow> bool" where
  "fresh s \<longleftrightarrow> operations s = 0 \<and> map staged (batches s) = [[]]"

text \<open>The invariant of the data model: a non-empty array and a counter within the limit.\<close>

definition invariant :: "multi_batch \<Rightarrow> bool" where
  "invariant s \<longleftrightarrow> batches s \<noteq> [] \<and> 0 \<le> operations s \<and> operations s \<le> limit s"

text \<open>
  The counter is the number of calls staged on the last batch, and no batch holds more
  calls than the limit.
\<close>

definition no_overfull :: "multi_batch \<Rightarrow> bool" where
  "no_overfull s \<longleftrightarrow>
     operations s = int (length (staged (last (batches s)))) \<and>
     (\<forall>b \<in> set (batches s). int (length (staged b)) \<le> limit s)"

section \<open>Two servers\<close>

text \<open>
  A server that accepts every batch, with one write result for each staged call, and a
  server that rejects the batch of serial number \<open>i\<close> with reason \<open>r\<close> and accepts the
  others.
\<close>

definition accepting :: "write_batch \<Rightarrow> settlement" where
  "accepting b = \<lparr>settled_at = 0, outcome = Inr (replicate (length (staged b)) 0)\<rparr>"

definition rejecting :: "nat \<Rightarrow> reason \<Rightarrow> write_batch \<Rightarrow> settlement" where
  "rejecting i r b =
     \<lparr>settled_at = 0,
      outcome = (if batch_id b = i then Inl r else Inr (replicate (length (staged b)) 0))\<rparr>"

section \<open>An aggregator with three handles\<close>

text \<open>
  The aggregator constructed with limit 1 on a new connection, after three \<^verbatim>\<open>delete\<close>
  calls: three handles with one call each.
\<close>

definition three_handles :: multi_batch where
  "three_handles =
     \<lparr>db = \<lparr>issued = 3\<rparr>,
      limit = 1,
      batches = [\<lparr>batch_id = 0, staged = [DeleteCall ''a'']\<rparr>,
                 \<lparr>batch_id = 1, staged = [DeleteCall ''b'']\<rparr>,
                 \<lparr>batch_id = 2, staged = [DeleteCall ''c'']\<rparr>],
      operations = 1\<rparr>"

section \<open>One enqueue operation\<close>

lemma list_update_last: "bs \<noteq> [] \<Longrightarrow> bs[length bs - Suc 0 := x] = butlast bs @ [x]"
  by (induction bs rule: rev_induct) auto

lemma nth_last: "bs \<noteq> [] \<Longrightarrow> bs ! (length bs - Suc 0) = last bs"
  by (simp add: last_conv_nth)

text \<open>With room in the last batch, the call goes to the last batch.\<close>

lemma on_target_room:
  assumes "batches s \<noteq> []" "operations s < limit s"
  shows "on_target call (getBatch s) =
     Inr (s\<lparr>batches := butlast (batches s) @ [call (last (batches s))],
            operations := operations s + 1\<rparr>)"
  using assms by (simp add: on_target_def getBatch_def list_update_last nth_last)

text \<open>Without room, the call goes to a new batch, appended to the array.\<close>

lemma on_target_full:
  assumes "\<not> operations s < limit s"
  shows "on_target call (getBatch s) =
     Inr (s\<lparr>db := snd (firestore_batch (db s)),
            batches := batches s @ [call (fst (firestore_batch (db s)))],
            operations := 1\<rparr>)"
  using assms by (simp add: on_target_def getBatch_def Let_def split: prod.splits)

lemma add_write_eta: "(\<lambda>b. b\<lparr>staged := staged b @ [w]\<rparr>) = add_write w"
  by (rule ext) (simp add: add_write_def)

lemma enqueue_on_target:
  "enqueue s c = on_target (add_write (write_of c)) (getBatch s)"
  by (cases c rule: write_of.cases)
     (simp_all add: delete_def set_mb_def update_def add_write_eta
        wb_delete_def wb_set2_def wb_set3_def wb_update_def)

section \<open>Cutting a list into pieces of equal length\<close>

lemma chunked_room:
  assumes "chunked L xss ws" "length (last xss) < L"
  shows "chunked L (butlast xss @ [last xss @ [w]]) (ws @ [w])"
proof -
  from assms(1) have ne: "xss \<noteq> []" and cc: "concat xss = ws"
    and full: "\<forall>j. Suc j < length xss \<longrightarrow> length (xss ! j) = L"
    by (simp_all add: chunked_def)
  from ne have split: "xss = butlast xss @ [last xss]" by simp
  have "concat xss = concat (butlast xss) @ last xss"
    by (subst split) simp
  with cc have c': "concat (butlast xss @ [last xss @ [w]]) = ws @ [w]" by simp
  have f': "length ((butlast xss @ [last xss @ [w]]) ! j) = L"
    if "Suc j < length (butlast xss @ [last xss @ [w]])" for j
  proof -
    from that have j: "Suc j < length xss" by simp
    then have "j < length (butlast xss)" by simp
    then have "(butlast xss @ [last xss @ [w]]) ! j = xss ! j"
      by (simp add: nth_append nth_butlast)
    with full j show ?thesis by simp
  qed
  show ?thesis
    unfolding chunked_def using c' f' assms(2) by simp
qed

lemma chunked_full:
  assumes "chunked L xss ws" "length (last xss) = L" "0 < L"
  shows "chunked L (xss @ [[w]]) (ws @ [w])"
proof -
  from assms(1) have ne: "xss \<noteq> []" and cc: "concat xss = ws"
    and full: "\<forall>j. Suc j < length xss \<longrightarrow> length (xss ! j) = L"
    by (simp_all add: chunked_def)
  have f': "length ((xss @ [[w]]) ! j) = L" if "Suc j < length (xss @ [[w]])" for j
  proof (cases "Suc j < length xss")
    case True
    with full show ?thesis by (simp add: nth_append)
  next
    case False
    with that have "j = length xss - 1" by simp
    with ne assms(2) show ?thesis by (simp add: nth_append last_conv_nth)
  qed
  show ?thesis
    unfolding chunked_def using cc f' assms(3) by simp
qed

lemma chunked_length:
  assumes "chunked L xss ws"
  shows "length ws = (length xss - 1) * L + length (last xss)"
proof -
  have "xss \<noteq> [] \<Longrightarrow> (\<forall>j. Suc j < length xss \<longrightarrow> length (xss ! j) = L) \<Longrightarrow>
        length (concat xss) = (length xss - 1) * L + length (last xss)"
  proof (induction xss)
    case Nil
    then show ?case by simp
  next
    case (Cons xs xss)
    show ?case
    proof (cases "xss = []")
      case True
      then show ?thesis by simp
    next
      case False
      from Cons.prems(2) have hd: "length xs = L" using False by (cases xss) auto
      from Cons.prems(2) have "\<forall>j. Suc j < length xss \<longrightarrow> length (xss ! j) = L" by auto
      with Cons.IH False have "length (concat xss) = (length xss - 1) * L + length (last xss)"
        by simp
      with hd False show ?thesis by (cases xss) simp_all
    qed
  qed
  with assms show ?thesis by (simp add: chunked_def)
qed

lemma chunked_nth:
  assumes "chunked L xss ws" "0 < L" "k < length ws"
  shows "k div L < length xss \<and> k mod L < length (xss ! (k div L)) \<and>
         xss ! (k div L) ! (k mod L) = ws ! k"
proof -
  have "xss \<noteq> [] \<Longrightarrow> length (last xss) \<le> L \<Longrightarrow>
        (\<forall>j. Suc j < length xss \<longrightarrow> length (xss ! j) = L) \<Longrightarrow> k < length (concat xss) \<Longrightarrow>
        k div L < length xss \<and> k mod L < length (xss ! (k div L)) \<and>
        xss ! (k div L) ! (k mod L) = concat xss ! k"
  proof (induction xss arbitrary: k)
    case Nil
    then show ?case by simp
  next
    case (Cons xs xss)
    show ?case
    proof (cases "xss = []")
      case True
      with Cons.prems have "k < L" "k < length xs" by simp_all
      with True show ?thesis by simp
    next
      case False
      from Cons.prems(3) have hd: "length xs = L" using False by (cases xss) auto
      from Cons.prems(3) have tl: "\<forall>j. Suc j < length xss \<longrightarrow> length (xss ! j) = L" by auto
      from Cons.prems(2) False have lst: "length (last xss) \<le> L" by simp
      show ?thesis
      proof (cases "k < L")
        case True
        with hd show ?thesis by (simp add: nth_append)
      next
        case ge: False
        then have k: "k = (k - L) + L" by simp
        from ge Cons.prems(4) hd have "k - L < length (concat xss)" by simp
        from Cons.IH [OF False lst tl this]
        have ih: "(k - L) div L < length xss"
          "(k - L) mod L < length (xss ! ((k - L) div L))"
          "xss ! ((k - L) div L) ! ((k - L) mod L) = concat xss ! (k - L)" by simp_all
        from ge assms(2) have d: "k div L = Suc ((k - L) div L)"
          by (metis k div_add_self2 Suc_eq_plus1 less_numeral_extra(3))
        from ge have m: "k mod L = (k - L) mod L"
          by (simp add: le_mod_geq)
        from ih d m hd ge show ?thesis by (simp add: nth_append)
      qed
    qed
  qed
  with assms show ?thesis by (simp add: chunked_def)
qed


section \<open>The layout of the staged calls\<close>

lemma fresh_layout: "fresh s \<Longrightarrow> limit s = int L \<Longrightarrow> layout L s []"
  by (auto simp: fresh_def layout_def chunked_def last_map)

lemma constructor_fresh: "fresh (constructor fs l)"
  by (simp add: fresh_def constructor_def firestore_batch_def Let_def)

lemma enqueue_layout:
  assumes "layout L s ws" "0 < L"
  shows "\<exists>s'. enqueue s c = Inr s' \<and> layout L s' (ws @ [write_of c])"
proof -
  let ?w = "write_of c"
  let ?xss = "map staged (batches s)"
  from assms(1) have lim: "limit s = int L"
    and ops: "operations s = int (length (staged (last (batches s))))"
    and ch: "chunked L ?xss ws"
    by (simp_all add: layout_def)
  from ch have ne: "batches s \<noteq> []" by (simp add: chunked_def)
  then have lst: "last ?xss = staged (last (batches s))" by (simp add: last_map)
  show ?thesis
  proof (cases "operations s < limit s")
    case True
    let ?s' = "s\<lparr>batches := butlast (batches s) @ [add_write ?w (last (batches s))],
                 operations := operations s + 1\<rparr>"
    from True ne have e: "enqueue s c = Inr ?s'"
      by (simp add: enqueue_on_target on_target_room)
    from True lim ops lst have "length (last ?xss) < L" by simp
    from chunked_room [OF ch this, of ?w]
    have "chunked L (map staged (batches ?s')) (ws @ [?w])"
      by (simp add: lst map_butlast add_write_def)
    with lim ops have "layout L ?s' (ws @ [?w])"
      by (simp add: layout_def add_write_def)
    with e show ?thesis by blast
  next
    case False
    let ?s' = "s\<lparr>db := snd (firestore_batch (db s)),
                 batches := batches s @ [add_write ?w (fst (firestore_batch (db s)))],
                 operations := 1\<rparr>"
    from False have e: "enqueue s c = Inr ?s'"
      by (simp add: enqueue_on_target on_target_full)
    from ch have "length (last ?xss) \<le> L" by (simp add: chunked_def)
    with False lim ops lst have "length (last ?xss) = L" by simp
    from chunked_full [OF ch this assms(2), of ?w]
    have "chunked L (map staged (batches ?s')) (ws @ [?w])"
      by (simp add: add_write_def firestore_batch_def)
    with lim have "layout L ?s' (ws @ [?w])"
      by (simp add: layout_def add_write_def firestore_batch_def)
    with e show ?thesis by blast
  qed
qed

lemma enqueue_all_layout:
  assumes "0 < L"
  shows "layout L s ws \<Longrightarrow>
         \<exists>s'. enqueue_all s cs = Inr s' \<and> layout L s' (ws @ map write_of cs)"
proof (induction cs arbitrary: s ws)
  case Nil
  then show ?case by simp
next
  case (Cons c cs)
  from enqueue_layout [OF Cons.prems assms, of c]
  obtain s1 where s1: "enqueue s c = Inr s1" "layout L s1 (ws @ [write_of c])" by blast
  from Cons.IH [OF s1(2)] obtain s' where
    "enqueue_all s1 cs = Inr s'" "layout L s' ((ws @ [write_of c]) @ map write_of cs)" by blast
  with s1(1) show ?case by simp
qed

lemma layout_count:
  assumes "layout L s ws" "0 < L"
  shows "length (batches s) = max 1 ((length ws + L - 1) div L)"
proof -
  let ?xss = "map staged (batches s)"
  from assms(1) have ch: "chunked L ?xss ws" by (simp add: layout_def)
  then have ne: "batches s \<noteq> []" and r: "length (last ?xss) \<le> L"
    and pos: "ws \<noteq> [] \<longrightarrow> last ?xss \<noteq> []"
    by (simp_all add: chunked_def)
  from chunked_length [OF ch]
  have len: "length ws = (length (batches s) - 1) * L + length (last ?xss)" by simp
  obtain m where m: "length (batches s) = Suc m" using ne by (cases "batches s") auto
  show ?thesis
  proof (cases "ws = []")
    case True
    with len assms(2) m show ?thesis by simp
  next
    case False
    with pos obtain q where q: "length (last ?xss) = Suc q" by (cases "last ?xss") auto
    with r have "q < L" by simp
    from len m q have eq: "length ws + L - 1 = Suc m * L + q" by simp
    from assms(2) have "(Suc m * L + q) div L = Suc m + q div L"
      by (intro div_mult_self3) simp
    with eq have "(length ws + L - 1) div L = Suc m" using \<open>q < L\<close> by simp
    with m show ?thesis by simp
  qed
qed

text \<open>An enqueue operation does not touch a batch that is followed by another one.\<close>

lemma enqueue_earlier_untouched:
  assumes "enqueue t c = Inr t'" "Suc j < length (batches t)"
  shows "batches t' ! j = batches t ! j"
proof (cases "operations t < limit t")
  case True
  from assms(2) have ne: "batches t \<noteq> []" by auto
  from assms(2) have "j < length (butlast (batches t))" by simp
  with assms(1) True ne show ?thesis
    by (auto simp: enqueue_on_target on_target_room nth_append nth_butlast)
next
  case False
  with assms show ?thesis
    by (auto simp: enqueue_on_target on_target_full nth_append)
qed

text \<open>The invariant is kept by an enqueue operation, which then completes without error.\<close>

lemma enqueue_invariant:
  assumes "0 < limit s" "invariant s"
  shows "\<exists>s'. enqueue s c = Inr s' \<and> invariant s' \<and> limit s' = limit s \<and>
              (no_overfull s \<longrightarrow> no_overfull s')"
proof (cases "operations s < limit s")
  case True
  let ?s' = "s\<lparr>batches := butlast (batches s) @ [add_write (write_of c) (last (batches s))],
               operations := operations s + 1\<rparr>"
  from assms(2) have ne: "batches s \<noteq> []" and ge: "0 \<le> operations s"
    by (simp_all add: invariant_def)
  from True ne have e: "enqueue s c = Inr ?s'"
    by (simp add: enqueue_on_target on_target_room)
  from True ge have i: "invariant ?s'" by (simp add: invariant_def)
  have o: "no_overfull ?s'" if "no_overfull s"
  proof -
    from that have ops: "operations s = int (length (staged (last (batches s))))"
      and le: "\<forall>b \<in> set (batches s). int (length (staged b)) \<le> limit s"
      by (simp_all add: no_overfull_def)
    have "int (length (staged b)) \<le> limit s" if "b \<in> set (butlast (batches s))" for b
      using that le by (auto dest: in_set_butlastD)
    with True ops show ?thesis
      by (auto simp: no_overfull_def add_write_def)
  qed
  from e i o show ?thesis by auto
next
  case False
  let ?s' = "s\<lparr>db := snd (firestore_batch (db s)),
               batches := batches s @ [add_write (write_of c) (fst (firestore_batch (db s)))],
               operations := 1\<rparr>"
  from False have e: "enqueue s c = Inr ?s'"
    by (simp add: enqueue_on_target on_target_full)
  from assms(1) have i: "invariant ?s'" by (simp add: invariant_def)
  have o: "no_overfull ?s'" if "no_overfull s"
    using that assms(1) by (auto simp: no_overfull_def add_write_def firestore_batch_def)
  from e i o show ?thesis by auto
qed

lemma commit_success_state:
  assumes "commit backend s = (Inr v, s')"
  shows "v = Void \<and>
         s' = s\<lparr>db := snd (firestore_batch (db s)),
                batches := [fst (firestore_batch (db s))],
                operations := 0\<rparr>"
  using assms by (auto simp: commit_def Let_def split: sum.splits prod.splits)

lemma three_handles_reached:
  "enqueue_all (constructor \<lparr>issued = 0\<rparr> (Some 1)) [Delete ''a'', Delete ''b'', Delete ''c'']
     = Inr three_handles"
  by (simp add: three_handles_def constructor_def firestore_batch_def BATCH_LIMIT_def
      delete_def on_target_def getBatch_def wb_delete_def)

section \<open>The settlement of several promises\<close>

lemma earliest_rejection_None:
  "earliest_rejection ps = None \<longleftrightarrow> (\<forall>p \<in> set ps. \<exists>v. outcome p = Inr v)"
  by (induction ps) (auto split: sum.splits option.splits)

lemma earliest_rejection_Some:
  "earliest_rejection ps = Some (t, r) \<Longrightarrow>
   \<exists>p \<in> set ps. outcome p = Inl r \<and> settled_at p = t \<and>
     (\<forall>q \<in> set ps. (\<exists>r'. outcome q = Inl r') \<longrightarrow> t \<le> settled_at q)"
proof (induction ps arbitrary: t r)
  case Nil
  then show ?case by simp
next
  case (Cons p ps)
  show ?case
  proof (cases "outcome p")
    case (Inr v)
    with Cons.prems have "earliest_rejection ps = Some (t, r)" by simp
    from Cons.IH [OF this] Inr show ?thesis by auto
  next
    case (Inl rp)
    show ?thesis
    proof (cases "earliest_rejection ps")
      case None
      then have "\<forall>q \<in> set ps. \<exists>v. outcome q = Inr v"
        by (simp add: earliest_rejection_None)
      with Cons.prems Inl None show ?thesis by auto
    next
      case (Some tr)
      obtain t' r' where tr: "tr = (t', r')" by (cases tr)
      from Cons.IH [of t' r'] Some tr
      obtain q where q: "q \<in> set ps" "outcome q = Inl r'" "settled_at q = t'"
        "\<forall>q' \<in> set ps. (\<exists>r''. outcome q' = Inl r'') \<longrightarrow> t' \<le> settled_at q'"
        by auto
      show ?thesis
      proof (cases "settled_at p \<le> t'")
        case True
        with Cons.prems Inl Some tr have "t = settled_at p" "r = rp" by simp_all
        with Inl True q(4) show ?thesis by fastforce
      next
        case False
        with Cons.prems Inl Some tr have "t = t'" "r = r'" by simp_all
        with False q show ?thesis by fastforce
      qed
    qed
  qed
qed

lemma promise_all_fulfilled:
  "(\<forall>p \<in> set ps. \<exists>v. outcome p = Inr v) \<Longrightarrow> promise_all ps = Inr (fulfilled_values ps)"
  by (simp add: promise_all_def earliest_rejection_None [symmetric])

lemma length_fulfilled_values:
  "(\<forall>p \<in> set ps. \<exists>v. outcome p = Inr v) \<Longrightarrow> length (fulfilled_values ps) = length ps"
  by (induction ps) auto

lemma promise_all_rejected:
  assumes "p \<in> set ps" "outcome p = Inl r0"
  shows "\<exists>r q. promise_all ps = Inl r \<and> q \<in> set ps \<and> outcome q = Inl r \<and>
           (\<forall>q' \<in> set ps. (\<exists>r'. outcome q' = Inl r') \<longrightarrow> settled_at q \<le> settled_at q')"
proof (cases "earliest_rejection ps")
  case None
  with assms show ?thesis by (auto simp: earliest_rejection_None)
next
  case (Some tr)
  obtain t r where tr: "tr = (t, r)" by (cases tr)
  from earliest_rejection_Some [of ps t r] Some tr
  obtain q where "q \<in> set ps" "outcome q = Inl r" "settled_at q = t"
    "\<forall>q' \<in> set ps. (\<exists>r'. outcome q' = Inl r') \<longrightarrow> t \<le> settled_at q'" by auto
  moreover from Some tr have "promise_all ps = Inl r" by (simp add: promise_all_def)
  ultimately show ?thesis by blast
qed

section \<open>The two ways a commit ends\<close>

lemma commit_success:
  assumes "\<forall>b \<in> set (batches s). \<exists>v. outcome (backend b) = Inr v"
  shows "commit backend s =
     (Inr Void, s\<lparr>db := snd (firestore_batch (db s)),
                  batches := [fst (firestore_batch (db s))],
                  operations := 0\<rparr>)"
proof -
  from assms have "\<forall>p \<in> set (map backend (batches s)). \<exists>v. outcome p = Inr v" by simp
  then have "promise_all (map backend (batches s)) =
      Inr (fulfilled_values (map backend (batches s)))"
    by (rule promise_all_fulfilled)
  then show ?thesis by (simp add: commit_def Let_def split: prod.splits)
qed

lemma commit_failure:
  assumes "b \<in> set (batches s)" "outcome (backend b) = Inl r0"
  shows "\<exists>r b'. commit backend s = (Inl r, s) \<and> b' \<in> set (batches s) \<and>
           outcome (backend b') = Inl r \<and>
           (\<forall>b'' \<in> set (batches s). (\<exists>r'. outcome (backend b'') = Inl r') \<longrightarrow>
              settled_at (backend b') \<le> settled_at (backend b''))"
proof -
  from assms have "backend b \<in> set (map backend (batches s))" by simp
  from promise_all_rejected [OF this assms(2)]
  obtain r q where r: "promise_all (map backend (batches s)) = Inl r"
    and q: "q \<in> set (map backend (batches s))" "outcome q = Inl r"
    and m: "\<forall>q' \<in> set (map backend (batches s)).
              (\<exists>r'. outcome q' = Inl r') \<longrightarrow> settled_at q \<le> settled_at q'"
    by blast
  from q(1) obtain b' where b': "b' \<in> set (batches s)" "q = backend b'" by auto
  from r have "commit backend s = (Inl r, s)" by (simp add: commit_def)
  with b' q(2) m show ?thesis by auto
qed

text \<open>
  On a non-empty array, an enqueue operation completes without error and stages one
  call, which is then the last call on the last batch.
\<close>

lemma enqueue_appends:
  assumes "batches s \<noteq> []"
  shows "\<exists>s'. enqueue s c = Inr s' \<and>
           concat (map staged (batches s')) = concat (map staged (batches s)) @ [write_of c] \<and>
           staged (last (batches s')) \<noteq> [] \<and>
           last (staged (last (batches s'))) = write_of c"
proof (cases "operations s < limit s")
  case True
  let ?s' = "s\<lparr>batches := butlast (batches s) @ [add_write (write_of c) (last (batches s))],
               operations := operations s + 1\<rparr>"
  from True assms have e: "enqueue s c = Inr ?s'"
    by (simp add: enqueue_on_target on_target_room)
  from assms have "butlast (batches s) @ [last (batches s)] = batches s" by simp
  then have "concat (map staged (butlast (batches s) @ [last (batches s)])) =
      concat (map staged (batches s))"
    by (simp only:)
  then have "concat (map staged (batches s)) =
      concat (map staged (butlast (batches s))) @ staged (last (batches s))"
    by simp
  then have "concat (map staged (batches ?s')) =
      concat (map staged (batches s)) @ [write_of c]"
    by (simp add: add_write_def)
  with e show ?thesis by (simp add: add_write_def)
next
  case False
  then have "enqueue s c =
     Inr (s\<lparr>db := snd (firestore_batch (db s)),
            batches := batches s @ [add_write (write_of c) (fst (firestore_batch (db s)))],
            operations := 1\<rparr>)"
    by (simp add: enqueue_on_target on_target_full)
  then show ?thesis by (simp add: add_write_def firestore_batch_def)
qed

text \<open>Without room in the last batch, an enqueue operation appends a new batch for its call.\<close>

lemma enqueue_full:
  assumes "\<not> operations s < limit s"
  shows "enqueue s c =
     Inr (s\<lparr>db := (db s)\<lparr>issued := Suc (issued (db s))\<rparr>,
            batches := batches s @ [\<lparr>batch_id = issued (db s), staged = [write_of c]\<rparr>],
            operations := 1\<rparr>)"
  using assms
  by (simp add: enqueue_on_target on_target_full add_write_def firestore_batch_def)

lemma upt_shift: "[n ..< n + Suc k] = n # [Suc n ..< Suc n + k]"
  by (subst upt_rec) (simp del: upt_Suc)

lemma enqueue_all_nonpositive:
  assumes "limit s \<le> 0" "0 \<le> operations s"
  shows "\<exists>s'. enqueue_all s cs = Inr s' \<and> limit s' = limit s \<and>
           issued (db s') = issued (db s) + length cs \<and>
           map staged (batches s') = map staged (batches s) @ map (\<lambda>c. [write_of c]) cs \<and>
           map batch_id (batches s') =
             map batch_id (batches s) @ [issued (db s) ..< issued (db s) + length cs] \<and>
           operations s' = (if cs = [] then operations s else 1)"
  using assms
proof (induction cs arbitrary: s)
  case Nil
  then show ?case by simp
next
  case (Cons c cs)
  let ?s1 = "s\<lparr>db := (db s)\<lparr>issued := Suc (issued (db s))\<rparr>,
               batches := batches s @ [\<lparr>batch_id = issued (db s), staged = [write_of c]\<rparr>],
               operations := 1\<rparr>"
  from Cons.prems have "\<not> operations s < limit s" by simp
  then have e: "enqueue s c = Inr ?s1" by (rule enqueue_full)
  from Cons.prems have "limit ?s1 \<le> 0" "0 \<le> operations ?s1" by simp_all
  from Cons.IH [OF this]
  obtain s' where s': "enqueue_all ?s1 cs = Inr s'" "limit s' = limit ?s1"
    "issued (db s') = issued (db ?s1) + length cs"
    "map staged (batches s') = map staged (batches ?s1) @ map (\<lambda>c. [write_of c]) cs"
    "map batch_id (batches s') =
       map batch_id (batches ?s1) @ [issued (db ?s1) ..< issued (db ?s1) + length cs]"
    "operations s' = (if cs = [] then operations ?s1 else 1)"
    by blast
  have u: "[issued (db s) ..< issued (db s) + length (c # cs)] =
      issued (db s) # [Suc (issued (db s)) ..< Suc (issued (db s)) + length cs]"
    using upt_shift [of "issued (db s)" "length cs"] by (simp del: upt_Suc)
  from e s'(1) have "enqueue_all s (c # cs) = Inr s'" by simp
  moreover from s'(2) have "limit s' = limit s" by simp
  moreover from s'(3) have "issued (db s') = issued (db s) + length (c # cs)" by simp
  moreover from s'(4) have "map staged (batches s') =
      map staged (batches s) @ map (\<lambda>c. [write_of c]) (c # cs)" by simp
  moreover from s'(5) have "map batch_id (batches s') =
      map batch_id (batches s) @ [issued (db s) ..< issued (db s) + length (c # cs)]"
    unfolding u by (simp del: upt_Suc)
  moreover from s'(6) have "operations s' = (if c # cs = [] then operations s else 1)"
    by simp
  ultimately show ?case by (intro exI [of _ s']) (simp only: simp_thms)
qed

section \<open>The claims\<close>

text \<open>
  C1. On an aggregator just constructed whose limit \<open>L\<close> is positive, a sequence of \<open>N\<close>
  enqueue operations of any kind completes without error, and afterwards \<^verbatim>\<open>batches\<close>
  holds \<open>\<lceil>N / L\<rceil>\<close> handles, and one handle when \<open>N = 0\<close>. The limit is the one the
  constructor stored: the argument when it is below 500, and 500 otherwise.
\<close>

theorem handle_count:
  assumes "limit (constructor fs l) = int L" "0 < L"
  shows "\<exists>s'. enqueue_all (constructor fs l) cs = Inr s' \<and>
              length (batches s') = max 1 ((length cs + L - 1) div L)"
proof -
  from fresh_layout [OF constructor_fresh assms(1)]
  have "layout L (constructor fs l) []" .
  from enqueue_all_layout [OF assms(2) this, of cs]
  obtain s' where s': "enqueue_all (constructor fs l) cs = Inr s'"
    "layout L s' (map write_of cs)" by auto
  from layout_count [OF s'(2) assms(2)] s'(1) show ?thesis by simp
qed

theorem handle_count_witness:
  "limit (constructor \<lparr>issued = 0\<rparr> (Some 2)) = int 2 \<and> (0::nat) < 2 \<and>
   (\<exists>s'. enqueue_all (constructor \<lparr>issued = 0\<rparr> (Some 2))
            [Set ''a'' [] Undefined, Set ''b'' [] Undefined, Set ''c'' [] Undefined,
             Set ''d'' [] Undefined, Set ''e'' [] Undefined] = Inr s' \<and>
         length (batches s') = 3)"
proof -
  have h: "limit (constructor \<lparr>issued = 0\<rparr> (Some 2)) = int 2"
    by (simp add: constructor_def firestore_batch_def BATCH_LIMIT_def)
  have p: "(0::nat) < 2" by simp
  from handle_count [OF h p,
      of "[Set ''a'' [] Undefined, Set ''b'' [] Undefined, Set ''c'' [] Undefined,
           Set ''d'' [] Undefined, Set ''e'' [] Undefined]"]
  show ?thesis using h by (simp add: numeral_3_eq_3)
qed

text \<open>
  C2. Let the aggregator be in the state right after construction or right after a
  successful commit, with a positive limit \<open>L\<close>. A sequence of enqueue operations
  completes without error, and the operation number \<open>k\<close>, counted from 0, is then the
  call number \<open>k mod L\<close> on the handle number \<open>k div L\<close> of \<^verbatim>\<open>batches\<close>; counted from 1
  this is the handle \<open>\<lfloor>(k - 1) / L\<rfloor>\<close>. The calls on all handles, read in the order of
  \<^verbatim>\<open>batches\<close>, are the operations in their order of arrival. In any state, an enqueue
  operation leaves every handle but the last of \<^verbatim>\<open>batches\<close> as it was.
\<close>

theorem arrival_order:
  assumes "fresh s" "limit s = int L" "0 < L"
  shows "(\<exists>s'. enqueue_all s cs = Inr s' \<and>
            concat (map staged (batches s')) = map write_of cs \<and>
            (\<forall>k < length cs.
               k div L < length (batches s') \<and>
               k mod L < length (staged (batches s' ! (k div L))) \<and>
               staged (batches s' ! (k div L)) ! (k mod L) = write_of (cs ! k))) \<and>
         (\<forall>t'. enqueue t c = Inr t' \<longrightarrow>
            (\<forall>j. Suc j < length (batches t) \<longrightarrow> batches t' ! j = batches t ! j))"
proof -
  from fresh_layout [OF assms(1,2)] have "layout L s []" .
  from enqueue_all_layout [OF assms(3) this, of cs]
  obtain s' where s': "enqueue_all s cs = Inr s'" "layout L s' (map write_of cs)" by auto
  from s'(2) have ch: "chunked L (map staged (batches s')) (map write_of cs)"
    by (simp add: layout_def)
  then have cc: "concat (map staged (batches s')) = map write_of cs"
    by (simp add: chunked_def)
  have pos: "k div L < length (batches s') \<and>
             k mod L < length (staged (batches s' ! (k div L))) \<and>
             staged (batches s' ! (k div L)) ! (k mod L) = write_of (cs ! k)"
    if "k < length cs" for k
  proof -
    from that have "k < length (map write_of cs)" by simp
    from chunked_nth [OF ch assms(3) this]
    have abc: "k div L < length (map staged (batches s')) \<and>
         k mod L < length (map staged (batches s') ! (k div L)) \<and>
         map staged (batches s') ! (k div L) ! (k mod L) = map write_of cs ! k" .
    then have d: "k div L < length (batches s')" by simp
    then have e: "map staged (batches s') ! (k div L) = staged (batches s' ! (k div L))"
      by (rule nth_map)
    from abc [unfolded e] d that show ?thesis by simp
  qed
  from s'(1) cc pos enqueue_earlier_untouched [of t c] show ?thesis by blast
qed

theorem arrival_order_witness:
  "fresh (constructor \<lparr>issued = 0\<rparr> (Some 2)) \<and>
   limit (constructor \<lparr>issued = 0\<rparr> (Some 2)) = int 2 \<and> (0::nat) < 2 \<and>
   (\<exists>s'. enqueue_all (constructor \<lparr>issued = 0\<rparr> (Some 2))
            [Delete ''a'', Set ''b'' [] Undefined, Update ''c'' []] = Inr s' \<and>
          staged (batches s' ! 0) ! 0 = DeleteCall ''a'' \<and>
          staged (batches s' ! 0) ! 1 = SetCall2 ''b'' [] \<and>
          staged (batches s' ! 1) ! 0 = UpdateCall ''c'' []) \<and>
   (\<exists>t'. enqueue
            \<lparr>db = \<lparr>issued = 2\<rparr>, limit = 2,
             batches = [\<lparr>batch_id = 0, staged = [DeleteCall ''a'', SetCall2 ''b'' []]\<rparr>,
                        \<lparr>batch_id = 1, staged = [UpdateCall ''c'' []]\<rparr>],
             operations = 1\<rparr> (Delete ''d'') = Inr t' \<and>
          batches t' ! 0 = \<lparr>batch_id = 0, staged = [DeleteCall ''a'', SetCall2 ''b'' []]\<rparr>)"
proof -
  let ?s = "constructor \<lparr>issued = 0\<rparr> (Some 2)"
  let ?cs = "[Delete ''a'', Set ''b'' [] Undefined, Update ''c'' []]"
  let ?t = "\<lparr>db = \<lparr>issued = 2\<rparr>, limit = 2,
             batches = [\<lparr>batch_id = 0, staged = [DeleteCall ''a'', SetCall2 ''b'' []]\<rparr>,
                        \<lparr>batch_id = 1, staged = [UpdateCall ''c'' []]\<rparr>],
             operations = 1\<rparr>"
  have f: "fresh ?s"
    by (simp add: fresh_def constructor_def firestore_batch_def)
  have h: "limit ?s = int 2"
    by (simp add: constructor_def firestore_batch_def BATCH_LIMIT_def)
  have p: "(0::nat) < 2" by simp
  note inst = arrival_order [OF f h p, where cs = ?cs and t = ?t and c = "Delete ''d''"]
  from inst obtain s' where s': "enqueue_all ?s ?cs = Inr s'"
    and at: "\<forall>k < length ?cs.
               staged (batches s' ! (k div 2)) ! (k mod 2) = write_of (?cs ! k)"
    by blast
  from at [rule_format, of 0] have "staged (batches s' ! 0) ! 0 = DeleteCall ''a''"
    by simp
  moreover from at [rule_format, of 1] have "staged (batches s' ! 0) ! 1 = SetCall2 ''b'' []"
    by simp
  moreover from at [rule_format, of 2] have "staged (batches s' ! 1) ! 0 = UpdateCall ''c'' []"
    by simp
  moreover have e: "\<exists>t'. enqueue ?t (Delete ''d'') = Inr t'"
    by (simp add: delete_def on_target_def getBatch_def)
  moreover from inst e have "\<exists>t'. enqueue ?t (Delete ''d'') = Inr t' \<and>
      batches t' ! 0 = \<lparr>batch_id = 0, staged = [DeleteCall ''a'', SetCall2 ''b'' []]\<rparr>"
    by fastforce
  ultimately show ?thesis using f h s' by simp
qed

text \<open>
  C3. The invariant, a non-empty \<^verbatim>\<open>batches\<close> and \<open>0 \<le> operations \<le> limit\<close>, holds
  of the constructed aggregator when its limit is positive. In a state of positive limit
  where it holds, each of \<^verbatim>\<open>delete\<close>, \<^verbatim>\<open>set\<close> and \<^verbatim>\<open>update\<close> completes without error in a
  state where it holds, with the same limit, and so does a commit that succeeds. Along
  with it, \<^verbatim>\<open>operations\<close> stays the number of calls on the last handle and no handle
  holds more calls than the limit.
\<close>

theorem invariant_preserved:
  "(0 < limit (constructor fs l) \<longrightarrow>
      invariant (constructor fs l) \<and> no_overfull (constructor fs l)) \<and>
   (0 < limit s \<and> invariant s \<longrightarrow>
      (\<exists>s'. delete s ref = Inr s' \<and> invariant s' \<and> limit s' = limit s \<and>
            (no_overfull s \<longrightarrow> no_overfull s')) \<and>
      (\<exists>s'. set_mb s ref data options = Inr s' \<and> invariant s' \<and> limit s' = limit s \<and>
            (no_overfull s \<longrightarrow> no_overfull s')) \<and>
      (\<exists>s'. update s ref udata = Inr s' \<and> invariant s' \<and> limit s' = limit s \<and>
            (no_overfull s \<longrightarrow> no_overfull s')) \<and>
      (\<forall>v s'. commit backend s = (Inr v, s') \<longrightarrow>
            invariant s' \<and> limit s' = limit s \<and> no_overfull s'))"
proof -
  have c: "invariant (constructor fs l) \<and> no_overfull (constructor fs l)"
    if "0 < limit (constructor fs l)"
    using that
    by (simp add: invariant_def no_overfull_def constructor_def firestore_batch_def Let_def)
  have m: "invariant s' \<and> limit s' = limit s \<and> no_overfull s'"
    if "0 < limit s" "commit backend s = (Inr v, s')" for v s'
    using that(1) commit_success_state [OF that(2)]
    by (simp add: invariant_def no_overfull_def firestore_batch_def)
  from enqueue_invariant [of s "Delete ref"] enqueue_invariant [of s "Set ref data options"]
    enqueue_invariant [of s "Update ref udata"] c m
  show ?thesis by simp
qed

theorem invariant_preserved_witness:
  "0 < limit (constructor \<lparr>issued = 0\<rparr> (Some 1)) \<and>
   invariant (constructor \<lparr>issued = 0\<rparr> (Some 1)) \<and>
   no_overfull (constructor \<lparr>issued = 0\<rparr> (Some 1)) \<and>
   (\<exists>s'. delete (constructor \<lparr>issued = 0\<rparr> (Some 1)) ''a'' = Inr s' \<and> invariant s' \<and>
         no_overfull s') \<and>
   (\<exists>s'. set_mb (constructor \<lparr>issued = 0\<rparr> (Some 1)) ''a'' [] Undefined = Inr s' \<and>
         invariant s' \<and> no_overfull s') \<and>
   (\<exists>s'. update (constructor \<lparr>issued = 0\<rparr> (Some 1)) ''a'' [] = Inr s' \<and> invariant s' \<and>
         no_overfull s') \<and>
   (\<exists>s'. commit accepting (constructor \<lparr>issued = 0\<rparr> (Some 1)) = (Inr Void, s') \<and>
         invariant s' \<and> no_overfull s')"
proof -
  let ?s = "constructor \<lparr>issued = 0\<rparr> (Some 1)"
  have p: "0 < limit ?s"
    by (simp add: constructor_def firestore_batch_def BATCH_LIMIT_def)
  have k: "\<exists>s'. commit accepting ?s = (Inr Void, s')"
    by (simp add: commit_def promise_all_def accepting_def constructor_def
        firestore_batch_def)
  from invariant_preserved [of "\<lparr>issued = 0\<rparr>" "Some 1" ?s "''a''" "[]" Undefined "[]" accepting]
    p k
  show ?thesis by fastforce
qed

text \<open>
  C4. As stated, the claim does not hold of the constructor: with the limit 0 the
  construction completes and stores 0. What holds: for every non-positive limit given
  to it, the construction completes without error, with one new handle, no operation
  counted, and that limit stored as it is.
\<close>

theorem construct_nonpositive_limit:
  assumes "l \<le> 0"
  shows "new_MultiBatch fs (Some l) =
     Inr \<lparr>db = snd (firestore_batch fs), limit = l,
          batches = [fst (firestore_batch fs)], operations = 0\<rparr>"
  using assms
  by (simp add: new_MultiBatch_def constructor_def BATCH_LIMIT_def split: prod.splits)

theorem construct_nonpositive_limit_witness:
  "(- 3 :: int) \<le> 0 \<and>
   new_MultiBatch \<lparr>issued = 7\<rparr> (Some (- 3)) =
     Inr \<lparr>db = \<lparr>issued = 8\<rparr>, limit = - 3,
          batches = [\<lparr>batch_id = 7, staged = []\<rparr>], operations = 0\<rparr>"
  using construct_nonpositive_limit [of "- 3" "\<lparr>issued = 7\<rparr>"]
  by (simp add: firestore_batch_def)

theorem construct_zero_limit_counterexample:
  "new_MultiBatch \<lparr>issued = 0\<rparr> (Some 0) =
     Inr \<lparr>db = \<lparr>issued = 1\<rparr>, limit = 0,
          batches = [\<lparr>batch_id = 0, staged = []\<rparr>], operations = 0\<rparr>"
  by (simp add: new_MultiBatch_def constructor_def BATCH_LIMIT_def firestore_batch_def)

text \<open>
  C5. When the commit of every handle succeeds, \<^verbatim>\<open>commit\<close> succeeds, and then \<^verbatim>\<open>batches\<close>
  holds exactly one handle, the one the connection issues at that moment, with nothing
  staged on it, and \<^verbatim>\<open>operations\<close> is 0; the limit is kept. The handle is none of the
  earlier ones when these came from the same connection. The state is the one a
  construction on this connection with this limit would give, so the next round of
  operations runs as on a new aggregator.
\<close>

theorem commit_success_resets:
  assumes "\<forall>b \<in> set (batches s). \<exists>v. outcome (backend b) = Inr v"
  shows "\<exists>s'. commit backend s = (Inr Void, s') \<and>
           batches s' = [fst (firestore_batch (db s))] \<and>
           staged (fst (firestore_batch (db s))) = [] \<and>
           db s' = snd (firestore_batch (db s)) \<and>
           operations s' = 0 \<and> limit s' = limit s \<and> fresh s' \<and>
           (limit s \<le> BATCH_LIMIT \<longrightarrow> s' = constructor (db s) (Some (limit s))) \<and>
           ((\<forall>b \<in> set (batches s). batch_id b < issued (db s)) \<longrightarrow>
              fst (firestore_batch (db s)) \<notin> set (batches s))"
proof -
  let ?s' = "s\<lparr>db := snd (firestore_batch (db s)),
               batches := [fst (firestore_batch (db s))],
               operations := 0\<rparr>"
  from commit_success [OF assms] have c: "commit backend s = (Inr Void, ?s')" .
  have f: "fresh ?s'" by (simp add: fresh_def firestore_batch_def)
  have k: "?s' = constructor (db s) (Some (limit s))" if "limit s \<le> BATCH_LIMIT"
    using that by (cases s) (auto simp: constructor_def firestore_batch_def Let_def)
  have n: "fst (firestore_batch (db s)) \<notin> set (batches s)"
    if "\<forall>b \<in> set (batches s). batch_id b < issued (db s)"
    using that by (auto simp: firestore_batch_def)
  from c f k n show ?thesis by (simp add: firestore_batch_def)
qed

theorem commit_success_resets_witness:
  "map (outcome \<circ> accepting) (batches three_handles) = [Inr [0], Inr [0], Inr [0]] \<and>
   limit three_handles \<le> BATCH_LIMIT \<and>
   commit accepting three_handles =
     (Inr Void,
      \<lparr>db = \<lparr>issued = 4\<rparr>, limit = 1,
       batches = [\<lparr>batch_id = 3, staged = []\<rparr>], operations = 0\<rparr>) \<and>
   constructor \<lparr>issued = 3\<rparr> (Some 1) =
      \<lparr>db = \<lparr>issued = 4\<rparr>, limit = 1,
       batches = [\<lparr>batch_id = 3, staged = []\<rparr>], operations = 0\<rparr> \<and>
   map batch_id (batches three_handles) = [0, 1, 2] \<and>
   issued (db three_handles) = 3 \<and>
   fst (firestore_batch (db three_handles)) \<notin> set (batches three_handles)"
proof -
  have o: "map (outcome \<circ> accepting) (batches three_handles) = [Inr [0], Inr [0], Inr [0]]"
    by (simp add: three_handles_def accepting_def)
  have j: "map batch_id (batches three_handles) = [0, 1, 2]" "issued (db three_handles) = 3"
    by (simp_all add: three_handles_def)
  have i: "\<forall>b \<in> set (batches three_handles). batch_id b < issued (db three_handles)"
    by (simp add: three_handles_def)
  have a: "\<forall>b \<in> set (batches three_handles). \<exists>v. outcome (accepting b) = Inr v"
    by (simp add: accepting_def)
  have l: "limit three_handles \<le> BATCH_LIMIT"
    by (simp add: three_handles_def BATCH_LIMIT_def)
  from commit_success_resets [OF a] l i
  obtain s' where s': "commit accepting three_handles = (Inr Void, s')"
    "s' = constructor (db three_handles) (Some (limit three_handles))"
    and n: "fst (firestore_batch (db three_handles)) \<notin> set (batches three_handles)"
    by blast
  have k: "constructor (db three_handles) (Some (limit three_handles)) =
      \<lparr>db = \<lparr>issued = 4\<rparr>, limit = 1,
       batches = [\<lparr>batch_id = 3, staged = []\<rparr>], operations = 0\<rparr>"
    by (simp add: three_handles_def constructor_def firestore_batch_def BATCH_LIMIT_def)
  have k': "constructor \<lparr>issued = 3\<rparr> (Some 1) =
      \<lparr>db = \<lparr>issued = 4\<rparr>, limit = 1,
       batches = [\<lparr>batch_id = 3, staged = []\<rparr>], operations = 0\<rparr>"
    by (simp add: constructor_def firestore_batch_def BATCH_LIMIT_def)
  from s' k have "commit accepting three_handles =
     (Inr Void,
      \<lparr>db = \<lparr>issued = 4\<rparr>, limit = 1,
       batches = [\<lparr>batch_id = 3, staged = []\<rparr>], operations = 0\<rparr>)"
    by (simp only:)
  with o l k' j n show ?thesis by (intro conjI)
qed

text \<open>
  C6. When the commit of some handle fails, \<^verbatim>\<open>commit\<close> fails, and the state of the
  aggregator is the one before the call: \<^verbatim>\<open>batches\<close> holds the same handles and
  \<^verbatim>\<open>operations\<close> the same count.
\<close>

theorem commit_failure_keeps_state:
  assumes "b \<in> set (batches s)" "outcome (backend b) = Inl r0"
  shows "\<exists>r. commit backend s = (Inl r, s)"
  using commit_failure [where b = b and s = s and backend = backend and ?r0.0 = r0] assms
  by blast

theorem commit_failure_keeps_state_witness:
  "\<lparr>batch_id = 1, staged = [DeleteCall ''b'']\<rparr> \<in> set (batches three_handles) \<and>
   outcome (rejecting 1 ''quota'' \<lparr>batch_id = 1, staged = [DeleteCall ''b'']\<rparr>) = Inl ''quota'' \<and>
   (\<exists>r. commit (rejecting 1 ''quota'') three_handles = (Inl r, three_handles))"
proof -
  have m: "\<lparr>batch_id = 1, staged = [DeleteCall ''b'']\<rparr> \<in> set (batches three_handles)"
    by (simp add: three_handles_def)
  have o: "outcome (rejecting 1 ''quota'' \<lparr>batch_id = 1, staged = [DeleteCall ''b'']\<rparr>)
      = Inl ''quota''"
    by (simp add: rejecting_def)
  from commit_failure_keeps_state [where backend = "rejecting 1 ''quota''"
      and b = "\<lparr>batch_id = 1, staged = [DeleteCall ''b'']\<rparr>" and s = three_handles
      and ?r0.0 = "''quota''"] m o
  show ?thesis by simp
qed

text \<open>
  C7. As stated, the claim does not hold: the failure that \<^verbatim>\<open>commit\<close> reports is the same
  whether the first or the second of three handles fails with a given reason. What
  holds: when the commit of some handle fails, \<^verbatim>\<open>commit\<close> reports failure and not success,
  and the failure is the rejection reason of a handle that failed, passed on as the
  handle gave it: that of the handle whose commit was rejected first.
\<close>

theorem commit_failure_reason:
  assumes "b \<in> set (batches s)" "outcome (backend b) = Inl r0"
  shows "\<exists>r b'. fst (commit backend s) = Inl r \<and> b' \<in> set (batches s) \<and>
           outcome (backend b') = Inl r \<and>
           (\<forall>b'' \<in> set (batches s). (\<exists>r'. outcome (backend b'') = Inl r') \<longrightarrow>
              settled_at (backend b') \<le> settled_at (backend b''))"
proof -
  from commit_failure [where b = b and s = s and backend = backend and ?r0.0 = r0] assms
  obtain r b' where "commit backend s = (Inl r, s)" "b' \<in> set (batches s)"
    "outcome (backend b') = Inl r"
    "\<forall>b'' \<in> set (batches s). (\<exists>r'. outcome (backend b'') = Inl r') \<longrightarrow>
       settled_at (backend b') \<le> settled_at (backend b'')"
    by blast
  then show ?thesis by (intro exI [of _ r] exI [of _ b']) simp
qed

theorem commit_failure_reason_witness:
  "\<lparr>batch_id = 1, staged = [DeleteCall ''b'']\<rparr> \<in> set (batches three_handles) \<and>
   outcome (rejecting 1 ''quota'' \<lparr>batch_id = 1, staged = [DeleteCall ''b'']\<rparr>) = Inl ''quota'' \<and>
   fst (commit (rejecting 1 ''quota'') three_handles) = Inl ''quota''"
proof -
  have m: "\<lparr>batch_id = 1, staged = [DeleteCall ''b'']\<rparr> \<in> set (batches three_handles)"
    by (simp add: three_handles_def)
  have o: "outcome (rejecting 1 ''quota'' \<lparr>batch_id = 1, staged = [DeleteCall ''b'']\<rparr>)
      = Inl ''quota''"
    by (simp add: rejecting_def)
  from commit_failure_reason [where backend = "rejecting 1 ''quota''"
      and b = "\<lparr>batch_id = 1, staged = [DeleteCall ''b'']\<rparr>" and s = three_handles
      and ?r0.0 = "''quota''"] m o
  obtain r b' where r: "fst (commit (rejecting 1 ''quota'') three_handles) = Inl r"
    "b' \<in> set (batches three_handles)" "outcome (rejecting 1 ''quota'' b') = Inl r"
    by blast
  from r(2,3) have "r = ''quota''"
    by (auto simp: three_handles_def rejecting_def)
  with r(1) m o show ?thesis by simp
qed

theorem commit_failure_identifies_handle_counterexample:
  "fst (commit (rejecting 1 ''quota'') three_handles) = Inl ''quota'' \<and>
   fst (commit (rejecting 0 ''quota'') three_handles) = Inl ''quota''"
  by (simp add: commit_def promise_all_def rejecting_def three_handles_def)

text \<open>
  C10. Whenever \<^verbatim>\<open>commit\<close> succeeds, its value is \<^verbatim>\<open>undefined\<close>. When the commit of every
  handle succeeds, \<^verbatim>\<open>Promise.all\<close> holds one list of write results for each handle, and
  \<^verbatim>\<open>commit\<close> still gives \<^verbatim>\<open>undefined\<close>.
\<close>

theorem commit_resolves_void:
  "(\<forall>v. fst (commit backend s) = Inr v \<longrightarrow> v = Void) \<and>
   ((\<forall>b \<in> set (batches s). \<exists>v. outcome (backend b) = Inr v) \<longrightarrow>
      promise_all (map backend (batches s)) = Inr (fulfilled_values (map backend (batches s))) \<and>
      length (fulfilled_values (map backend (batches s))) = length (batches s) \<and>
      fst (commit backend s) = Inr Void)"
proof -
  have a: "v = Void" if "fst (commit backend s) = Inr v" for v
    using that by (auto simp: commit_def Let_def split: sum.splits prod.splits)
  have b: "promise_all (map backend (batches s)) =
        Inr (fulfilled_values (map backend (batches s))) \<and>
      length (fulfilled_values (map backend (batches s))) = length (batches s) \<and>
      fst (commit backend s) = Inr Void"
    if h: "\<forall>b \<in> set (batches s). \<exists>v. outcome (backend b) = Inr v"
  proof -
    from h have "\<forall>p \<in> set (map backend (batches s)). \<exists>v. outcome p = Inr v" by simp
    from promise_all_fulfilled [OF this] length_fulfilled_values [OF this]
      commit_success [OF h]
    show ?thesis by simp
  qed
  from a b show ?thesis by blast
qed

theorem commit_resolves_void_witness:
  "map (outcome \<circ> accepting) (batches three_handles) = [Inr [0], Inr [0], Inr [0]] \<and>
   promise_all (map accepting (batches three_handles)) = Inr [[0], [0], [0]] \<and>
   fst (commit accepting three_handles) = Inr Void"
proof -
  have a: "\<forall>b \<in> set (batches three_handles). \<exists>v. outcome (accepting b) = Inr v"
    by (simp add: accepting_def)
  have "fulfilled_values (map accepting (batches three_handles)) = [[0], [0], [0]]"
    by (simp add: three_handles_def accepting_def)
  moreover
  have "map (outcome \<circ> accepting) (batches three_handles) = [Inr [0], Inr [0], Inr [0]]"
    by (simp add: three_handles_def accepting_def)
  ultimately show ?thesis using commit_resolves_void [of accepting three_handles] a by simp
qed

text \<open>
  C8. On a non-empty \<^verbatim>\<open>batches\<close>, a call of \<^verbatim>\<open>set\<close> without the options argument completes
  without error and stages exactly one call, the two-argument \<^verbatim>\<open>set(ref, data)\<close>, on the
  last handle; a call with an options object stages exactly one call, the
  three-argument \<^verbatim>\<open>set(ref, data, options)\<close> with that object. The two-argument call
  differs from the three-argument call with the empty options object.
\<close>

theorem set_forwards_options:
  assumes "batches s \<noteq> []"
  shows "(\<exists>s'. set_mb s ref data Undefined = Inr s' \<and>
            concat (map staged (batches s')) =
              concat (map staged (batches s)) @ [SetCall2 ref data] \<and>
            last (staged (last (batches s'))) = SetCall2 ref data) \<and>
         (\<exists>s'. set_mb s ref data (Value opts) = Inr s' \<and>
            concat (map staged (batches s')) =
              concat (map staged (batches s)) @ [SetCall3 ref data opts] \<and>
            last (staged (last (batches s'))) = SetCall3 ref data opts) \<and>
         SetCall2 ref data \<noteq> SetCall3 ref data \<lparr>merge = None, mergeFields = None\<rparr>"
  using enqueue_appends [OF assms, of "Set ref data Undefined"]
    enqueue_appends [OF assms, of "Set ref data (Value opts)"]
  by auto

theorem set_forwards_options_witness:
  "batches (constructor \<lparr>issued = 0\<rparr> None) \<noteq> [] \<and>
   set_mb (constructor \<lparr>issued = 0\<rparr> None) ''doc'' [(''foo'', ''bar'')] Undefined =
     Inr \<lparr>db = \<lparr>issued = 1\<rparr>, limit = 500,
          batches = [\<lparr>batch_id = 0, staged = [SetCall2 ''doc'' [(''foo'', ''bar'')]]\<rparr>],
          operations = 1\<rparr> \<and>
   (\<exists>s'. set_mb (constructor \<lparr>issued = 0\<rparr> None) ''doc'' [(''foo'', ''bar'')]
            (Value \<lparr>merge = Some True, mergeFields = None\<rparr>) = Inr s' \<and>
          last (staged (last (batches s'))) =
            SetCall3 ''doc'' [(''foo'', ''bar'')] \<lparr>merge = Some True, mergeFields = None\<rparr>)"
proof -
  let ?s = "constructor \<lparr>issued = 0\<rparr> None"
  have ne: "batches ?s \<noteq> []"
    by (simp add: constructor_def firestore_batch_def)
  have two: "set_mb ?s ''doc'' [(''foo'', ''bar'')] Undefined =
     Inr \<lparr>db = \<lparr>issued = 1\<rparr>, limit = 500,
          batches = [\<lparr>batch_id = 0, staged = [SetCall2 ''doc'' [(''foo'', ''bar'')]]\<rparr>],
          operations = 1\<rparr>"
    by (simp add: set_mb_def on_target_def getBatch_def constructor_def firestore_batch_def
        BATCH_LIMIT_def wb_set2_def)
  from set_forwards_options [OF ne, of "''doc''" "[(''foo'', ''bar'')]"
      "\<lparr>merge = Some True, mergeFields = None\<rparr>"] ne two
  show ?thesis by blast
qed

text \<open>
  C9. The constructor stores a non-positive limit as it is. On the aggregator so
  constructed, a sequence of enqueue operations completes without error; each
  operation appends a handle newly issued by the connection and stages its call there,
  so that afterwards the handle of the constructor holds no call, the handle number
  \<open>k + 1\<close> holds the call of the operation number \<open>k\<close> and nothing else, and \<^verbatim>\<open>operations\<close>
  is 1 as soon as one operation was made.
\<close>

theorem nonpositive_limit_one_each:
  assumes "l \<le> 0"
  shows "limit (constructor fs (Some l)) = l \<and>
         (\<exists>s'. enqueue_all (constructor fs (Some l)) cs = Inr s' \<and> limit s' = l \<and>
            length (batches s') = Suc (length cs) \<and>
            map staged (batches s') = [] # map (\<lambda>c. [write_of c]) cs \<and>
            map batch_id (batches s') = [issued fs ..< issued fs + Suc (length cs)] \<and>
            (cs \<noteq> [] \<longrightarrow> operations s' = 1))"
proof -
  let ?s = "constructor fs (Some l)"
  from assms have lim: "limit ?s = l"
    by (simp add: constructor_def BATCH_LIMIT_def firestore_batch_def)
  have st: "operations ?s = 0" "map staged (batches ?s) = [[]]"
    "map batch_id (batches ?s) = [issued fs]" "issued (db ?s) = Suc (issued fs)"
    by (simp_all add: constructor_def firestore_batch_def)
  from lim assms st(1) have "limit ?s \<le> 0" "0 \<le> operations ?s" by simp_all
  from enqueue_all_nonpositive [OF this, of cs]
  obtain s' where s': "enqueue_all ?s cs = Inr s'" "limit s' = limit ?s"
    "map staged (batches s') = map staged (batches ?s) @ map (\<lambda>c. [write_of c]) cs"
    "map batch_id (batches s') =
       map batch_id (batches ?s) @ [issued (db ?s) ..< issued (db ?s) + length cs]"
    "operations s' = (if cs = [] then operations ?s else 1)"
    by blast
  from s'(3) st(2) have a: "map staged (batches s') = [] # map (\<lambda>c. [write_of c]) cs"
    by simp
  then have "length (map staged (batches s')) = Suc (length cs)" by simp
  then have b: "length (batches s') = Suc (length cs)" by simp
  from s'(4) st(3,4)
  have c: "map batch_id (batches s') = [issued fs ..< issued fs + Suc (length cs)]"
    unfolding upt_shift [of "issued fs" "length cs"] by (simp del: upt_Suc)
  from s'(1,2,5) lim a b c show ?thesis by simp
qed

theorem nonpositive_limit_one_each_witness:
  "(0::int) \<le> 0 \<and>
   enqueue_all (constructor \<lparr>issued = 0\<rparr> (Some 0)) [Delete ''a'', Update ''b'' []] =
     Inr \<lparr>db = \<lparr>issued = 3\<rparr>, limit = 0,
          batches = [\<lparr>batch_id = 0, staged = []\<rparr>,
                     \<lparr>batch_id = 1, staged = [DeleteCall ''a'']\<rparr>,
                     \<lparr>batch_id = 2, staged = [UpdateCall ''b'' []]\<rparr>],
          operations = 1\<rparr> \<and>
   (\<exists>s'. enqueue_all (constructor \<lparr>issued = 0\<rparr> (Some 0)) [Delete ''a'', Update ''b'' []] =
           Inr s' \<and>
         map staged (batches s') = [[], [DeleteCall ''a''], [UpdateCall ''b'' []]] \<and>
         operations s' = 1)"
proof -
  have e: "enqueue_all (constructor \<lparr>issued = 0\<rparr> (Some 0)) [Delete ''a'', Update ''b'' []] =
     Inr \<lparr>db = \<lparr>issued = 3\<rparr>, limit = 0,
          batches = [\<lparr>batch_id = 0, staged = []\<rparr>,
                     \<lparr>batch_id = 1, staged = [DeleteCall ''a'']\<rparr>,
                     \<lparr>batch_id = 2, staged = [UpdateCall ''b'' []]\<rparr>],
          operations = 1\<rparr>"
    by (simp add: constructor_def firestore_batch_def BATCH_LIMIT_def delete_def update_def
        on_target_def getBatch_def wb_delete_def wb_update_def)
  have z: "(0::int) \<le> 0" by simp
  from nonpositive_limit_one_each [OF z, of "\<lparr>issued = 0\<rparr>" "[Delete ''a'', Update ''b'' []]"] e
  show ?thesis by simp
qed

end
